theory Spec2Isabelle
  imports Complex_Main "HOL-Library.AList"
begin

section \<open>Python values\<close>

text \<open>
  Python exceptions that the modelled code can raise: \<open>RuntimeError\<close> from \<open>search\<close>,
  \<open>ValueError\<close> from \<open>math.log\<close>, \<open>math.sqrt\<close> and \<open>numpy.random.randint\<close>,
  \<open>ZeroDivisionError\<close> from a division, \<open>KeyError\<close> from a dictionary lookup,
  \<open>IndexError\<close> from \<open>random.choice\<close> on an empty sequence.
\<close>

datatype error = RuntimeError | ValueError | ZeroDivisionError | KeyError | IndexError

text \<open>
  A Python float where the code branches on it: a finite number, an infinity or
  \<open>nan\<close>. The rounding of an exact result to a double is a parameter: the double
  nearest to the result, and which results are too large for a double. Only this is
  fixed: an exact zero stays zero, the sign is kept, and a result that is too large
  becomes the infinity of its sign. The float that a rollout returns is a parameter
  too, \<open>returned\<close> of the exact return: it can be any float, an infinity or \<open>nan\<close>
  included.
\<close>

datatype pyfloat = Finite real | PosInf | NegInf | NaN

record rounding =
  nearest :: "real \<Rightarrow> real"
  overflows :: "real \<Rightarrow> bool"
  returned :: "real \<Rightarrow> pyfloat"

definition fround :: "rounding \<Rightarrow> real \<Rightarrow> pyfloat" where
  "fround fp x =
     (if x = 0 then Finite 0
      else if overflows fp x then (if 0 < x then PosInf else NegInf)
      else Finite (if 0 < x then \<bar>nearest fp x\<bar> else - \<bar>nearest fp x\<bar>))"

text \<open>Addition and multiplication of floats.\<close>

fun fadd :: "rounding \<Rightarrow> pyfloat \<Rightarrow> pyfloat \<Rightarrow> pyfloat" where
  "fadd fp (Finite x) (Finite y) = fround fp (x + y)"
| "fadd fp NaN b = NaN"
| "fadd fp a NaN = NaN"
| "fadd fp PosInf NegInf = NaN"
| "fadd fp NegInf PosInf = NaN"
| "fadd fp PosInf b = PosInf"
| "fadd fp a PosInf = PosInf"
| "fadd fp NegInf b = NegInf"
| "fadd fp a NegInf = NegInf"

fun fmul :: "rounding \<Rightarrow> pyfloat \<Rightarrow> pyfloat \<Rightarrow> pyfloat" where
  "fmul fp (Finite x) (Finite y) = fround fp (x * y)"
| "fmul fp NaN b = NaN"
| "fmul fp a NaN = NaN"
| "fmul fp PosInf (Finite y) = (if y = 0 then NaN else if 0 < y then PosInf else NegInf)"
| "fmul fp NegInf (Finite y) = (if y = 0 then NaN else if 0 < y then NegInf else PosInf)"
| "fmul fp (Finite x) PosInf = (if x = 0 then NaN else if 0 < x then PosInf else NegInf)"
| "fmul fp (Finite x) NegInf = (if x = 0 then NaN else if 0 < x then NegInf else PosInf)"
| "fmul fp PosInf PosInf = PosInf"
| "fmul fp PosInf NegInf = NegInf"
| "fmul fp NegInf PosInf = NegInf"
| "fmul fp NegInf NegInf = PosInf"

text \<open>
  Division of a float by a count (\<open>x / float(n)\<close> and \<open>x / n\<close> for a Python int \<open>n\<close>
  that is not negative): division by \<open>0\<close> raises \<open>ZeroDivisionError\<close>.
\<close>

fun fdiv :: "rounding \<Rightarrow> pyfloat \<Rightarrow> nat \<Rightarrow> error + pyfloat" where
  "fdiv fp a 0 = Inl ZeroDivisionError"
| "fdiv fp (Finite x) (Suc n) = Inr (fround fp (x / real (Suc n)))"
| "fdiv fp PosInf (Suc n) = Inr PosInf"
| "fdiv fp NegInf (Suc n) = Inr NegInf"
| "fdiv fp NaN (Suc n) = Inr NaN"

text \<open>
  \<open>math.sqrt\<close> raises \<open>ValueError\<close> for a negative number and for minus infinity;
  \<open>math.log\<close> of the int \<open>0\<close> raises \<open>ValueError\<close>.
\<close>

fun math_sqrt :: "rounding \<Rightarrow> pyfloat \<Rightarrow> error + pyfloat" where
  "math_sqrt fp (Finite x) = (if x < 0 then Inl ValueError else Inr (fround fp (sqrt x)))"
| "math_sqrt fp PosInf = Inr PosInf"
| "math_sqrt fp NegInf = Inl ValueError"
| "math_sqrt fp NaN = Inr NaN"

definition math_log :: "rounding \<Rightarrow> nat \<Rightarrow> error + pyfloat" where
  "math_log fp n = (if n = 0 then Inl ValueError else Inr (fround fp (ln (real n))))"

text \<open>The comparison \<open>a > b\<close> of floats: false whenever one of them is \<open>nan\<close>.\<close>

fun fgt :: "pyfloat \<Rightarrow> pyfloat \<Rightarrow> bool" where
  "fgt (Finite x) (Finite y) = (y < x)"
| "fgt NaN b = False"
| "fgt a NaN = False"
| "fgt NegInf b = False"
| "fgt a PosInf = False"
| "fgt PosInf b = True"
| "fgt a NegInf = True"

section \<open>Data model of \<open>mcts.py\<close>\<close>

text \<open>
  The dataclass \<open>MCTSConfig\<close>. Python ints are \<open>int\<close>. \<open>c_uct\<close> is a float as above;
  \<open>gamma\<close>, the rewards and the return of a rollout, on which the rollout does not
  branch, are read as reals; where the return enters the tree it is the float
  \<open>returned\<close>.
\<close>

record MCTSConfig =
  gamma :: real
  c_uct :: pyfloat
  rollouts :: int
  max_depth :: int

text \<open>
  Class \<open>Node\<close>. Node objects live in a store (a list of nodes); a reference to a node is
  its index in the store. The dictionary \<open>children\<close> keeps insertion order, so it is an
  association list from actions to node references.
\<close>

record ('s, 'a) Node =
  state :: 's
  parent :: "(nat \<times> 'a) option"
  children :: "('a \<times> nat) list"
  visits :: nat
  value_sum :: pyfloat

definition Node_init :: "'s \<Rightarrow> (nat \<times> 'a) option \<Rightarrow> ('s, 'a) Node" where
  "Node_init s p = \<lparr>state = s, parent = p, children = [], visits = 0, value_sum = Finite 0\<rparr>"

text \<open>The property \<open>q\<close>: \<open>0.0 if self.visits == 0 else self.value_sum / float(self.visits)\<close>.\<close>

definition q :: "rounding \<Rightarrow> ('s, 'a) Node \<Rightarrow> error + pyfloat" where
  "q fp n = (if visits n = 0 then Inr (Finite 0) else fdiv fp (value_sum n) (visits n))"

text \<open>
  The random source (\<open>random.Random\<close>): its internal state and the generator
  \<open>_randbelow\<close>, which from a state and a bound gives a number and the next state.
  \<open>choice\<close> is \<open>seq[self._randbelow(len(seq))]\<close>; the number is reduced into range, and
  an empty sequence raises \<open>IndexError\<close>.
\<close>

record 'r Random =
  randbelow :: "'r \<Rightarrow> nat \<Rightarrow> nat \<times> 'r"
  rstate :: 'r

definition choice :: "'r Random \<Rightarrow> 'a list \<Rightarrow> error + ('a \<times> 'r Random)" where
  "choice g seq =
     (if seq = [] then Inl IndexError
      else (case randbelow g (rstate g) (length seq) of
              (k, s') \<Rightarrow> Inr (seq ! (k mod length seq), g\<lparr>rstate := s'\<rparr>)))"

text \<open>
  The environment of module \<open>gridworld\<close>, which the planner only consumes: the actions
  of a state, the terminal test, and \<open>sample_next_state_and_reward(mdp, s, a, rng)\<close>,
  which draws from the random source it is given.
\<close>

record ('s, 'a, 'r) MDP =
  actions :: "'s \<Rightarrow> 'a list"
  is_terminal :: "'s \<Rightarrow> bool"
  sample_next_state_and_reward :: "'s \<Rightarrow> 'a \<Rightarrow> 'r Random \<Rightarrow> ('s \<times> real) \<times> 'r Random"

text \<open>Class \<open>MCTS\<close>: the fields set by \<open>__init__\<close>.\<close>

record ('s, 'a, 'r, 'h) MCTS =
  mdp :: "('s, 'a, 'r) MDP"
  cfg :: MCTSConfig
  rng :: "'r Random"
  heuristic :: "'h option"

text \<open>
  \<open>MCTS.__init__\<close>: when no random source is given, \<open>random.Random(0)\<close> is used; the
  library constructor \<open>random.Random(seed)\<close> is the parameter \<open>Random_seed\<close>.
\<close>

definition MCTS_init ::
  "(int \<Rightarrow> 'r Random) \<Rightarrow> ('s, 'a, 'r) MDP \<Rightarrow> MCTSConfig \<Rightarrow> 'r Random option \<Rightarrow> 'h option
     \<Rightarrow> ('s, 'a, 'r, 'h) MCTS" where
  "MCTS_init Random_seed m c g h =
     \<lparr>mdp = m, cfg = c, rng = (case g of None \<Rightarrow> Random_seed 0 | Some g' \<Rightarrow> g'), heuristic = h\<rparr>"

section \<open>Selection: \<open>MCTS._select_uct\<close>\<close>

text \<open>
  The loop over \<open>node.children.items()\<close>. \<open>best_score\<close> starts at \<open>float('-inf')\<close> and
  \<open>best_action\<close> at \<open>None\<close>: a score that is \<open>nan\<close> or minus infinity is not greater than
  \<open>best_score\<close>, and the loop can end with \<open>None\<close>.
\<close>

fun select_uct_loop ::
  "rounding \<Rightarrow> ('s, 'a, 'r, 'h) MCTS \<Rightarrow> ('s, 'a) Node list \<Rightarrow> ('s, 'a) Node \<Rightarrow> ('a \<times> nat) list
     \<Rightarrow> 'a option \<Rightarrow> pyfloat \<Rightarrow> error + 'a option" where
  "select_uct_loop fp self st node [] best_action best_score = Inr best_action"
| "select_uct_loop fp self st node ((action, ch) # items) best_action best_score =
     (let child = st ! ch in
      if visits child = 0 then Inr (Some action)
      else
        (case q fp child of
           Inl e \<Rightarrow> Inl e
         | Inr exploit \<Rightarrow>
             (case math_log fp (visits node) of
                Inl e \<Rightarrow> Inl e
              | Inr l \<Rightarrow>
                  (case fdiv fp l (visits child) of
                     Inl e \<Rightarrow> Inl e
                   | Inr d \<Rightarrow>
                       (case math_sqrt fp d of
                          Inl e \<Rightarrow> Inl e
                        | Inr r \<Rightarrow>
                            (let explore = fmul fp (c_uct (cfg self)) r;
                                 score = fadd fp exploit explore
                             in if fgt score best_score
                                then select_uct_loop fp self st node items (Some action) score
                                else select_uct_loop fp self st node items
                                       best_action best_score))))))"

definition select_uct ::
  "rounding \<Rightarrow> ('s, 'a, 'r, 'h) MCTS \<Rightarrow> ('s, 'a) Node list \<Rightarrow> nat \<Rightarrow> error + 'a option" where
  "select_uct fp self st n =
     select_uct_loop fp self st (st ! n) (children (st ! n)) None NegInf"

section \<open>Rollout: \<open>MCTS._rollout\<close>\<close>

function rollout_loop ::
  "('s, 'a, 'r, 'h) MCTS \<Rightarrow> 's \<Rightarrow> int \<Rightarrow> real \<Rightarrow> real \<Rightarrow> 'r Random
     \<Rightarrow> error + (real \<times> 'r Random)" where
  "rollout_loop self s depth total_return discount g =
     (if \<not> is_terminal (mdp self) s \<and> depth < max_depth (cfg self) then
        (case actions (mdp self) s of
           [] \<Rightarrow> Inr (total_return, g)
         | a # as \<Rightarrow>
             (case choice g (a # as) of
                Inl e \<Rightarrow> Inl e
              | Inr (action, g1) \<Rightarrow>
                  (case sample_next_state_and_reward (mdp self) s action g1 of
                     ((next_s, reward), g2) \<Rightarrow>
                       rollout_loop self next_s (depth + 1)
                         (total_return + discount * reward) (discount * gamma (cfg self)) g2)))
      else Inr (total_return, g))"
  by pat_completeness auto
termination
  by (relation "measure (\<lambda>(self, s, depth, t, d, g). nat (max_depth (cfg self) - depth))") auto

definition rollout ::
  "('s, 'a, 'r, 'h) MCTS \<Rightarrow> 's \<Rightarrow> int \<Rightarrow> 'r Random \<Rightarrow> error + (real \<times> 'r Random)" where
  "rollout self s depth g = rollout_loop self s depth 0 1 g"

section \<open>One iteration of \<open>MCTS.search\<close>\<close>

text \<open>
  The selection loop: it walks from \<open>node\<close> down the tree and returns the node reached,
  the path and the depth. \<open>node.children[action]\<close> raises \<open>KeyError\<close> for a key that is
  absent (\<open>None\<close> included).
\<close>

function select_loop ::
  "rounding \<Rightarrow> ('s, 'a, 'r, 'h) MCTS \<Rightarrow> ('s, 'a) Node list \<Rightarrow> nat \<Rightarrow> nat list \<Rightarrow> int
     \<Rightarrow> error + (nat \<times> nat list \<times> int)" where
  "select_loop fp self st node path depth =
     (if children (st ! node) \<noteq> [] \<and> \<not> is_terminal (mdp self) (state (st ! node))
         \<and> depth < max_depth (cfg self) then
        (case select_uct fp self st node of
           Inl e \<Rightarrow> Inl e
         | Inr None \<Rightarrow> Inl KeyError
         | Inr (Some action) \<Rightarrow>
             (case map_of (children (st ! node)) action of
                None \<Rightarrow> Inl KeyError
              | Some ch \<Rightarrow> select_loop fp self st ch (path @ [ch]) (depth + 1)))
      else Inr (node, path, depth))"
  by pat_completeness auto
termination
  by (relation "measure (\<lambda>(fp, self, st, node, path, depth). nat (max_depth (cfg self) - depth))")
    auto

text \<open>
  Expansion. A new \<open>Node\<close> is allocated at the end of the store;
  \<open>node.children[action] = child\<close> is the dictionary update, which keeps the position of
  a key that is present and appends a new key.
\<close>

definition expand ::
  "('s, 'a, 'r, 'h) MCTS \<Rightarrow> ('s, 'a) Node list \<Rightarrow> nat \<Rightarrow> nat list \<Rightarrow> int \<Rightarrow> 'r Random
     \<Rightarrow> error + (('s, 'a) Node list \<times> nat \<times> nat list \<times> int \<times> 'r Random)" where
  "expand self st node path depth g =
     (if \<not> is_terminal (mdp self) (state (st ! node)) \<and> depth < max_depth (cfg self) then
        (let acts = actions (mdp self) (state (st ! node)) in
         if acts \<noteq> [] then
           (let unexplored = filter (\<lambda>a. a \<notin> set (map fst (children (st ! node)))) acts in
            if unexplored \<noteq> [] then
              (case choice g unexplored of
                 Inl e \<Rightarrow> Inl e
               | Inr (action, g1) \<Rightarrow>
                   (case sample_next_state_and_reward (mdp self) (state (st ! node)) action g1 of
                      ((next_s, _), g2) \<Rightarrow>
                        (let child = length st;
                             st1 = st @ [Node_init next_s (Some (node, action))];
                             st2 = st1[node := (st1 ! node)
                                     \<lparr>children := AList.update action child (children (st1 ! node))\<rparr>]
                         in Inr (st2, child, path @ [child], depth + 1, g2))))
            else Inr (st, node, path, depth, g))
         else Inr (st, node, path, depth, g))
      else Inr (st, node, path, depth, g))"

text \<open>Backpropagation: \<open>for n in path: n.visits += 1; n.value_sum += value\<close>.\<close>

definition backprop_node ::
  "rounding \<Rightarrow> pyfloat \<Rightarrow> ('s, 'a) Node list \<Rightarrow> nat \<Rightarrow> ('s, 'a) Node list" where
  "backprop_node fp v st n =
     st[n := (st ! n)\<lparr>visits := visits (st ! n) + 1, value_sum := fadd fp (value_sum (st ! n)) v\<rparr>]"

definition backprop ::
  "rounding \<Rightarrow> pyfloat \<Rightarrow> nat list \<Rightarrow> ('s, 'a) Node list \<Rightarrow> ('s, 'a) Node list" where
  "backprop fp v path st = foldl (backprop_node fp v) st path"

text \<open>
  The body of the \<open>for\<close> loop of \<open>search\<close>; the root is the node at index \<open>0\<close>. The
  return of the rollout enters the tree as a float.
\<close>

definition simulate ::
  "rounding \<Rightarrow> ('s, 'a, 'r, 'h) MCTS \<Rightarrow> ('s, 'a) Node list \<Rightarrow> 'r Random
     \<Rightarrow> error + (('s, 'a) Node list \<times> 'r Random)" where
  "simulate fp self st g =
     (case select_loop fp self st 0 [0] 0 of
        Inl e \<Rightarrow> Inl e
      | Inr (node, path, depth) \<Rightarrow>
          (case expand self st node path depth g of
             Inl e \<Rightarrow> Inl e
           | Inr (st1, node1, path1, depth1, g1) \<Rightarrow>
               (case rollout self (state (st1 ! node1)) depth1 g1 of
                  Inl e \<Rightarrow> Inl e
                | Inr (v, g2) \<Rightarrow> Inr (backprop fp (returned fp v) path1 st1, g2))))"

section \<open>\<open>MCTS.search\<close>\<close>

fun run_rollouts ::
  "rounding \<Rightarrow> ('s, 'a, 'r, 'h) MCTS \<Rightarrow> nat \<Rightarrow> ('s, 'a) Node list \<Rightarrow> 'r Random
     \<Rightarrow> error + (('s, 'a) Node list \<times> 'r Random)" where
  "run_rollouts fp self 0 st g = Inr (st, g)"
| "run_rollouts fp self (Suc n) st g =
     (case simulate fp self st g of
        Inl e \<Rightarrow> Inl e
      | Inr (st', g') \<Rightarrow> run_rollouts fp self n st' g')"

text \<open>The tree and the random source after the \<open>for _ in range(self.cfg.rollouts)\<close> loop.\<close>

definition search_tree ::
  "rounding \<Rightarrow> ('s, 'a, 'r, 'h) MCTS \<Rightarrow> 's \<Rightarrow> error + (('s, 'a) Node list \<times> 'r Random)" where
  "search_tree fp self root_state =
     run_rollouts fp self (nat (rollouts (cfg self))) [Node_init root_state None] (rng self)"

text \<open>The loop that chooses the action with most visits; \<open>best_v\<close> starts at \<open>-1\<close>.\<close>

fun most_visited ::
  "('s, 'a) Node list \<Rightarrow> ('a \<times> nat) list \<Rightarrow> 'a option \<Rightarrow> int \<Rightarrow> 'a option" where
  "most_visited st [] best_a best_v = best_a"
| "most_visited st ((a, ch) # items) best_a best_v =
     (if int (visits (st ! ch)) > best_v
      then most_visited st items (Some a) (int (visits (st ! ch)))
      else most_visited st items best_a best_v)"

text \<open>\<open>search\<close> returns the action; the random source it leaves behind is returned too.\<close>

definition search ::
  "rounding \<Rightarrow> ('s, 'a, 'r, 'h) MCTS \<Rightarrow> 's \<Rightarrow> error + ('a \<times> 'r Random)" where
  "search fp self root_state =
     (case search_tree fp self root_state of
        Inl e \<Rightarrow> Inl e
      | Inr (st, g) \<Rightarrow>
          (case most_visited st (children (st ! 0)) None (- 1) of
             Some a \<Rightarrow> Inr (a, g)
           | None \<Rightarrow>
               (case actions (mdp self) root_state of
                  [] \<Rightarrow> Inl RuntimeError
                | a # _ \<Rightarrow> Inr (a, g))))"

section \<open>\<open>ExplorationOnly.select_arm\<close> of \<open>exploration_only.py\<close>\<close>

text \<open>
  The base class \<open>BaseMABAlgorithm\<close> is not among the sources; of an
  \<open>ExplorationOnly\<close> object only the field \<open>n_arms\<close>, which \<open>select_arm\<close> reads, is
  kept.
\<close>

record ExplorationOnly =
  n_arms :: int

text \<open>
  \<open>numpy.random.randint(low, high)\<close> by its contract. The result type is the 64-bit
  integer: \<open>low\<close> below \<open>-2^63\<close> or \<open>high\<close> above \<open>2^63\<close> raises \<open>ValueError\<close>, and so does
  \<open>low >= high\<close>; otherwise the result is a number of the half-open interval from
  \<open>low\<close> to \<open>high\<close>. The global generator of \<open>numpy\<close> is a random source like the one
  above.
\<close>

definition randint :: "'r Random \<Rightarrow> int \<Rightarrow> int \<Rightarrow> error + (int \<times> 'r Random)" where
  "randint g low high =
     (if low < - (2 ^ 63) \<or> 2 ^ 63 < high then Inl ValueError
      else if high \<le> low then Inl ValueError
      else (case randbelow g (rstate g) (nat (high - low)) of
              (k, s') \<Rightarrow> Inr (low + int (k mod nat (high - low)), g\<lparr>rstate := s'\<rparr>)))"

definition select_arm :: "ExplorationOnly \<Rightarrow> 'r Random \<Rightarrow> error + (int \<times> 'r Random)" where
  "select_arm self g = randint g 0 (n_arms self)"

section \<open>The selection rule as the specification words it\<close>

text \<open>
  The score of a child under a parent, \<open>mean_value(c) + c_uct * sqrt(ln(N) / n_c)\<close> with
  \<open>N\<close> the visit count of the parent and \<open>n_c\<close> that of the child, computed in floats for
  counts that are not \<open>0\<close>. A float is not negative when it is a finite number that is
  not negative or plus infinity.
\<close>

fun fsqrt :: "rounding \<Rightarrow> pyfloat \<Rightarrow> pyfloat" where
  "fsqrt fp (Finite x) = fround fp (sqrt x)"
| "fsqrt fp a = a"

fun fquot :: "rounding \<Rightarrow> pyfloat \<Rightarrow> nat \<Rightarrow> pyfloat" where
  "fquot fp (Finite x) n = fround fp (x / real n)"
| "fquot fp a n = a"

definition uct_score ::
  "rounding \<Rightarrow> ('s, 'a, 'r, 'h) MCTS \<Rightarrow> ('s, 'a) Node \<Rightarrow> ('s, 'a) Node \<Rightarrow> pyfloat" where
  "uct_score fp self node child =
     fadd fp (fquot fp (value_sum child) (visits child))
       (fmul fp (c_uct (cfg self))
          (fsqrt fp (fquot fp (fround fp (ln (real (visits node)))) (visits child))))"

fun nonneg :: "pyfloat \<Rightarrow> bool" where
  "nonneg (Finite x) = (0 \<le> x)"
| "nonneg PosInf = True"
| "nonneg a = False"

section \<open>Invariants of the search tree\<close>

text \<open>
  The store is a tree: every reference held by a node points to a later node of the
  store. A node that has a child has been visited. The keys of \<open>children\<close> are actions
  of the node's state.
\<close>

definition refs_ok :: "('s, 'a) Node list \<Rightarrow> bool" where
  "refs_ok st \<longleftrightarrow> (\<forall>i < length st. \<forall>(a, c) \<in> set (children (st ! i)). i < c \<and> c < length st)"

definition visited_ok :: "('s, 'a) Node list \<Rightarrow> bool" where
  "visited_ok st \<longleftrightarrow> (\<forall>i < length st. children (st ! i) \<noteq> [] \<longrightarrow> 0 < visits (st ! i))"

definition keys_ok :: "('s, 'a, 'r, 'h) MCTS \<Rightarrow> ('s, 'a) Node list \<Rightarrow> bool" where
  "keys_ok self st \<longleftrightarrow>
     (\<forall>i < length st. set (map fst (children (st ! i))) \<subseteq> set (actions (mdp self) (state (st ! i))))"

definition tree_inv :: "('s, 'a, 'r, 'h) MCTS \<Rightarrow> ('s, 'a) Node list \<Rightarrow> bool" where
  "tree_inv self st \<longleftrightarrow> refs_ok st \<and> visited_ok st \<and> keys_ok self st \<and> st \<noteq> []"

text \<open>The store after an expansion of \<open>node\<close> by \<open>action\<close>, reaching \<open>next_s\<close>.\<close>

definition grow :: "('s, 'a) Node list \<Rightarrow> nat \<Rightarrow> 'a \<Rightarrow> 's \<Rightarrow> ('s, 'a) Node list" where
  "grow st node action next_s =
     (st @ [Node_init next_s (Some (node, action))])
       [node := (st ! node)\<lparr>children := AList.update action (length st) (children (st ! node))\<rparr>]"

text \<open>A store that holds the root only, and the root has no child.\<close>

definition childless :: "('s, 'a) Node list \<Rightarrow> 's \<Rightarrow> bool" where
  "childless st s \<longleftrightarrow> length st = 1 \<and> children (st ! 0) = [] \<and> state (st ! 0) = s"

section \<open>Concrete environments and planners\<close>

text \<open>
  Arithmetic without rounding and without overflow. A random source that counts its
  draws; a chain of states \<open>0, 1, 2\<close> with two actions and reward \<open>1\<close> per step, terminal
  from state \<open>2\<close>; an environment whose states are all terminal; an environment without
  actions.
\<close>

definition exact :: rounding where
  "exact = \<lparr>nearest = (\<lambda>x. x), overflows = (\<lambda>x. False), returned = Finite\<rparr>"

definition example_rng :: "nat Random" where
  "example_rng = \<lparr>randbelow = (\<lambda>s n. (s, Suc s)), rstate = 0\<rparr>"

definition chain_mdp :: "(nat, nat, nat) MDP" where
  "chain_mdp = \<lparr>actions = (\<lambda>s. [10, 20]), is_terminal = (\<lambda>s. 2 \<le> s),
      sample_next_state_and_reward = (\<lambda>s a g. ((Suc s, 1), g))\<rparr>"

definition terminal_mdp :: "(nat, nat, nat) MDP" where
  "terminal_mdp = \<lparr>actions = (\<lambda>s. [10, 20]), is_terminal = (\<lambda>s. True),
      sample_next_state_and_reward = (\<lambda>s a g. ((Suc s, 1), g))\<rparr>"

definition empty_mdp :: "(nat, nat, nat) MDP" where
  "empty_mdp = \<lparr>actions = (\<lambda>s. []), is_terminal = (\<lambda>s. False),
      sample_next_state_and_reward = (\<lambda>s a g. ((Suc s, 1), g))\<rparr>"

definition example_cfg :: MCTSConfig where
  "example_cfg = \<lparr>gamma = 1 / 2, c_uct = Finite 1, rollouts = 2, max_depth = 5\<rparr>"

definition bad_cfg :: MCTSConfig where
  "bad_cfg = \<lparr>gamma = - 1, c_uct = Finite (- 1), rollouts = 0, max_depth = 0\<rparr>"

definition negative_cfg :: MCTSConfig where
  "negative_cfg = \<lparr>gamma = 1 / 2, c_uct = Finite 1, rollouts = - 1, max_depth = 5\<rparr>"

definition inf_cfg :: MCTSConfig where
  "inf_cfg = \<lparr>gamma = 1 / 2, c_uct = PosInf, rollouts = 2, max_depth = 5\<rparr>"

definition planner :: "(nat, nat, nat) MDP \<Rightarrow> MCTSConfig \<Rightarrow> (nat, nat, nat, unit) MCTS" where
  "planner m c = MCTS_init (\<lambda>seed. example_rng) m c None None"

text \<open>
  A tree whose root, visited once, has one child, visited once with value sum \<open>1\<close>: the
  tree of \<open>chain_mdp\<close> after the first iteration.
\<close>

definition one_child_store :: "(nat, nat) Node list" where
  "one_child_store =
     [\<lparr>state = 0, parent = None, children = [(10, 1)], visits = 1, value_sum = Finite 1\<rparr>,
      \<lparr>state = 1, parent = Some (0, 10), children = [], visits = 1, value_sum = Finite 1\<rparr>]"

definition zero_depth_cfg :: MCTSConfig where
  "zero_depth_cfg = \<lparr>gamma = 1 / 2, c_uct = Finite 1, rollouts = 2, max_depth = 0\<rparr>"

text \<open>
  The same tree with a child whose value sum is minus infinity, as it is after a
  rollout whose return overflowed.
\<close>

definition neg_inf_store :: "(nat, nat) Node list" where
  "neg_inf_store =
     [\<lparr>state = 0, parent = None, children = [(10, 1)], visits = 1, value_sum = NegInf\<rparr>,
      \<lparr>state = 1, parent = Some (0, 10), children = [], visits = 1, value_sum = NegInf\<rparr>]"

section \<open>Properties of the selection rule\<close>

lemma fround_zero: "fround fp 0 = Finite 0"
  by (simp add: fround_def)

lemma fadd_NaN: "fadd fp a NaN = NaN"
  by (cases a) simp_all

lemma fround_nonneg: "0 \<le> x \<Longrightarrow> nonneg (fround fp x)"
  by (simp add: fround_def)

lemma fdiv_count: "n \<noteq> 0 \<Longrightarrow> fdiv fp a n = Inr (fquot fp a n)"
  by (cases a; cases n) simp_all

lemma fquot_nonneg: "nonneg a \<Longrightarrow> nonneg (fquot fp a n)"
  by (cases a) (simp_all add: fround_nonneg)

lemma math_sqrt_nonneg: "nonneg a \<Longrightarrow> math_sqrt fp a = Inr (fsqrt fp a)"
  by (cases a) simp_all

lemma math_log_count: "0 < n \<Longrightarrow> math_log fp n = Inr (fround fp (ln (real n))) \<and> nonneg (fround fp (ln (real n)))"
proof -
  assume "0 < n"
  then have "1 \<le> real n" by simp
  then have "0 \<le> ln (real n)" by simp
  with \<open>0 < n\<close> show ?thesis by (simp add: math_log_def fround_nonneg)
qed

lemma q_visited: "visits n \<noteq> 0 \<Longrightarrow> q fp n = Inr (fquot fp (value_sum n) (visits n))"
  by (simp add: q_def fdiv_count)

lemma select_uct_loop_step:
  assumes "0 < visits node" and "visits (st ! c) \<noteq> 0"
  shows "select_uct_loop fp self st node ((a, c) # items) ba bs =
           (if fgt (uct_score fp self node (st ! c)) bs
            then select_uct_loop fp self st node items (Some a) (uct_score fp self node (st ! c))
            else select_uct_loop fp self st node items ba bs)"
proof -
  let ?l = "fround fp (ln (real (visits node)))"
  let ?d = "fquot fp ?l (visits (st ! c))"
  have l: "math_log fp (visits node) = Inr ?l" and nl: "nonneg ?l"
    using math_log_count [OF assms(1), of fp] by simp_all
  have d: "fdiv fp ?l (visits (st ! c)) = Inr ?d"
    by (rule fdiv_count [OF assms(2)])
  have r: "math_sqrt fp ?d = Inr (fsqrt fp ?d)"
    by (rule math_sqrt_nonneg [OF fquot_nonneg [OF nl]])
  show ?thesis
    using assms(2) by (simp add: Let_def q_visited l d r uct_score_def)
qed

lemma select_uct_loop_result:
  assumes "0 < visits node"
  shows "\<exists>r. select_uct_loop fp self st node items ba bs = Inr r
           \<and> (r = ba \<or> r \<in> Some ` fst ` set items)"
proof (induction items arbitrary: ba bs)
  case Nil
  show ?case by simp
next
  case (Cons x items)
  obtain a c where x: "x = (a, c)" by (cases x)
  show ?case
  proof (cases "visits (st ! c) = 0")
    case True
    then show ?thesis by (simp add: x)
  next
    case False
    note step = select_uct_loop_step [OF assms False, of fp self a items ba bs]
    show ?thesis
    proof (cases "fgt (uct_score fp self node (st ! c)) bs")
      case True
      with step Cons.IH [of "Some a" "uct_score fp self node (st ! c)"] show ?thesis
        by (auto simp: x)
    next
      case False
      with step Cons.IH [of ba bs] show ?thesis by (auto simp: x)
    qed
  qed
qed

lemma select_uct_loop_unvisited:
  assumes "0 < visits node"
    and "\<forall>y \<in> set pre. visits (st ! snd y) \<noteq> 0"
    and "visits (st ! ch) = 0"
  shows "select_uct_loop fp self st node (pre @ (a, ch) # post) ba bs = Inr (Some a)"
  using assms(2)
proof (induction pre arbitrary: ba bs)
  case Nil
  show ?case using assms(3) by simp
next
  case (Cons x pre)
  obtain b c where x: "x = (b, c)" by (cases x)
  from Cons.prems x have nz: "visits (st ! c) \<noteq> 0" by simp
  from Cons.prems have rest: "\<forall>y \<in> set pre. visits (st ! snd y) \<noteq> 0" by simp
  show ?case
    using select_uct_loop_step [OF assms(1) nz, of fp self b "pre @ (a, ch) # post" ba bs]
      Cons.IH [OF rest]
    by (simp add: x)
qed

lemma select_uct_returns:
  assumes "0 < visits (st ! n)"
  shows "select_uct fp self st n = Inr None
       \<or> (\<exists>a ch. select_uct fp self st n = Inr (Some a) \<and> (a, ch) \<in> set (children (st ! n)))"
  using select_uct_loop_result [OF assms, of fp self st "children (st ! n)" None NegInf]
  by (auto simp: select_uct_def)

lemma fgt_not_nan: "fgt a b \<Longrightarrow> a \<noteq> NaN \<and> b \<noteq> NaN"
  by (cases a; cases b) simp_all

lemma fgt_trans: "fgt a b \<Longrightarrow> fgt b c \<Longrightarrow> fgt a c"
  by (cases a; cases b; cases c) simp_all

lemma fgt_le_trans: "fgt a b \<Longrightarrow> \<not> fgt c b \<Longrightarrow> c \<noteq> NaN \<Longrightarrow> fgt a c"
  by (cases a; cases b; cases c) simp_all

lemma select_uct_loop_scores:
  assumes "0 < visits node"
    and "\<forall>y \<in> set items. visits (st ! snd y) \<noteq> 0"
  shows "(select_uct_loop fp self st node items ba bs = Inr ba
            \<and> (\<forall>y \<in> set items. \<not> fgt (uct_score fp self node (st ! snd y)) bs))
       \<or> (\<exists>pre a ch post. items = pre @ (a, ch) # post
            \<and> select_uct_loop fp self st node items ba bs = Inr (Some a)
            \<and> fgt (uct_score fp self node (st ! ch)) bs
            \<and> (\<forall>y \<in> set pre. uct_score fp self node (st ! snd y) = NaN
                  \<or> fgt (uct_score fp self node (st ! ch)) (uct_score fp self node (st ! snd y)))
            \<and> (\<forall>y \<in> set post.
                  \<not> fgt (uct_score fp self node (st ! snd y)) (uct_score fp self node (st ! ch))))"
    (is "?D1 items ba bs \<or> ?D2 items ba bs")
  using assms(2)
proof (induction items arbitrary: ba bs)
  case Nil
  show ?case by simp
next
  case (Cons x items)
  obtain a0 c0 where x: "x = (a0, c0)" by (cases x)
  define s0 where "s0 = uct_score fp self node (st ! c0)"
  from Cons.prems x have nz: "visits (st ! c0) \<noteq> 0" by simp
  from Cons.prems have rest: "\<forall>y \<in> set items. visits (st ! snd y) \<noteq> 0" by simp
  note step = select_uct_loop_step [OF assms(1) nz, of fp self a0 items ba bs, folded s0_def]
  note ih = Cons.IH [OF rest]
  show ?case
  proof (cases "fgt s0 bs")
    case True
    then have eq: "select_uct_loop fp self st node (x # items) ba bs =
        select_uct_loop fp self st node items (Some a0) s0"
      using step by (simp add: x)
    from ih [of "Some a0" s0] show ?thesis
    proof
      assume d1: "?D1 items (Some a0) s0"
      have "?D2 (x # items) ba bs"
        apply (rule exI [of _ "[]"], rule exI [of _ a0], rule exI [of _ c0], rule exI [of _ items])
        using d1 eq True by (simp add: x s0_def)
      then show ?thesis ..
    next
      assume "?D2 items (Some a0) s0"
      then obtain pre a ch post where
        items: "items = pre @ (a, ch) # post"
        and res: "select_uct_loop fp self st node items (Some a0) s0 = Inr (Some a)"
        and gt: "fgt (uct_score fp self node (st ! ch)) s0"
        and pre: "\<forall>y \<in> set pre. uct_score fp self node (st ! snd y) = NaN
                  \<or> fgt (uct_score fp self node (st ! ch)) (uct_score fp self node (st ! snd y))"
        and post: "\<forall>y \<in> set post.
                  \<not> fgt (uct_score fp self node (st ! snd y)) (uct_score fp self node (st ! ch))"
        by blast
      from gt True have gt': "fgt (uct_score fp self node (st ! ch)) bs" by (rule fgt_trans)
      have "?D2 (x # items) ba bs"
        apply (rule exI [of _ "x # pre"], rule exI [of _ a], rule exI [of _ ch], rule exI [of _ post])
        using items res gt gt' pre post eq by (simp add: x s0_def)
      then show ?thesis ..
    qed
  next
    case False
    have eq: "select_uct_loop fp self st node (x # items) ba bs =
        select_uct_loop fp self st node items ba bs"
      using step False by (simp add: x)
    from ih [of ba bs] show ?thesis
    proof
      assume d1: "?D1 items ba bs"
      have "?D1 (x # items) ba bs"
        using d1 eq False by (simp add: x s0_def)
      then show ?thesis ..
    next
      assume "?D2 items ba bs"
      then obtain pre a ch post where
        items: "items = pre @ (a, ch) # post"
        and res: "select_uct_loop fp self st node items ba bs = Inr (Some a)"
        and gt: "fgt (uct_score fp self node (st ! ch)) bs"
        and pre: "\<forall>y \<in> set pre. uct_score fp self node (st ! snd y) = NaN
                  \<or> fgt (uct_score fp self node (st ! ch)) (uct_score fp self node (st ! snd y))"
        and post: "\<forall>y \<in> set post.
                  \<not> fgt (uct_score fp self node (st ! snd y)) (uct_score fp self node (st ! ch))"
        by blast
      have x0: "s0 = NaN \<or> fgt (uct_score fp self node (st ! ch)) s0"
        using fgt_le_trans [OF gt False] by blast
      have "?D2 (x # items) ba bs"
        apply (rule exI [of _ "x # pre"], rule exI [of _ a], rule exI [of _ ch], rule exI [of _ post])
        using items res gt pre post eq x0 by (simp add: x s0_def)
      then show ?thesis ..
    qed
  qed
qed

lemma select_uct_first_best:
  assumes "0 < visits (st ! n)"
  shows "(children (st ! n) = pre @ (a, ch) # post
            \<and> (\<forall>y \<in> set pre. visits (st ! snd y) \<noteq> 0) \<and> visits (st ! ch) = 0
          \<longrightarrow> select_uct fp self st n = Inr (Some a))
       \<and> ((\<forall>y \<in> set (children (st ! n)). visits (st ! snd y) \<noteq> 0)
            \<and> (\<exists>y \<in> set (children (st ! n)). fgt (uct_score fp self (st ! n) (st ! snd y)) NegInf)
          \<longrightarrow> (\<exists>pre a ch post. children (st ! n) = pre @ (a, ch) # post
                \<and> select_uct fp self st n = Inr (Some a)
                \<and> (\<forall>y \<in> set pre. uct_score fp self (st ! n) (st ! snd y) = NaN
                      \<or> fgt (uct_score fp self (st ! n) (st ! ch))
                           (uct_score fp self (st ! n) (st ! snd y)))
                \<and> (\<forall>y \<in> set post.
                      \<not> fgt (uct_score fp self (st ! n) (st ! snd y))
                           (uct_score fp self (st ! n) (st ! ch)))))"
proof (intro conjI impI)
  assume h: "children (st ! n) = pre @ (a, ch) # post
            \<and> (\<forall>y \<in> set pre. visits (st ! snd y) \<noteq> 0) \<and> visits (st ! ch) = 0"
  then have "select_uct_loop fp self st (st ! n) (pre @ (a, ch) # post) None NegInf = Inr (Some a)"
    using assms by (intro select_uct_loop_unvisited) auto
  with h show "select_uct fp self st n = Inr (Some a)" by (simp add: select_uct_def)
next
  assume h: "(\<forall>y \<in> set (children (st ! n)). visits (st ! snd y) \<noteq> 0)
            \<and> (\<exists>y \<in> set (children (st ! n)). fgt (uct_score fp self (st ! n) (st ! snd y)) NegInf)"
  then have nz: "\<forall>y \<in> set (children (st ! n)). visits (st ! snd y) \<noteq> 0" by blast
  from select_uct_loop_scores [OF assms nz, of fp self None NegInf] h
  show "\<exists>pre a ch post. children (st ! n) = pre @ (a, ch) # post
                \<and> select_uct fp self st n = Inr (Some a)
                \<and> (\<forall>y \<in> set pre. uct_score fp self (st ! n) (st ! snd y) = NaN
                      \<or> fgt (uct_score fp self (st ! n) (st ! ch))
                           (uct_score fp self (st ! n) (st ! snd y)))
                \<and> (\<forall>y \<in> set post.
                      \<not> fgt (uct_score fp self (st ! n) (st ! snd y))
                           (uct_score fp self (st ! n) (st ! ch)))"
    unfolding select_uct_def by blast
qed

section \<open>Properties of the phases of an iteration\<close>

lemma choice_member:
  assumes "seq \<noteq> []"
  shows "\<exists>a g'. choice g seq = Inr (a, g') \<and> a \<in> set seq"
proof -
  obtain k s' where r: "randbelow g (rstate g) (length seq) = (k, s')"
    by (cases "randbelow g (rstate g) (length seq)")
  from assms have "k mod length seq < length seq" by simp
  then have "seq ! (k mod length seq) \<in> set seq" by (rule nth_mem)
  with assms r show ?thesis by (simp add: choice_def)
qed

lemma rollout_loop_total:
  "\<exists>v g'. rollout_loop self s depth total_return discount g = Inr (v, g')"
proof (induction self s depth total_return discount g rule: rollout_loop.induct)
  case (1 self s depth total_return discount g)
  show ?case
  proof (cases "\<not> is_terminal (mdp self) s \<and> depth < max_depth (cfg self)")
    case False
    then show ?thesis by auto
  next
    case go: True
    show ?thesis
    proof (cases "actions (mdp self) s")
      case Nil
      with go show ?thesis by simp
    next
      case (Cons a as)
      obtain action g1 where c: "choice g (a # as) = Inr (action, g1)"
        using choice_member [of "a # as" g] by auto
      obtain next_s reward g2 where
        smp: "sample_next_state_and_reward (mdp self) s action g1 = ((next_s, reward), g2)"
        by (metis prod.exhaust)
      from "1.IH" [OF go Cons c refl smp [symmetric] refl]
      obtain v g' where "rollout_loop self next_s (depth + 1)
          (total_return + discount * reward) (discount * gamma (cfg self)) g2 = Inr (v, g')"
        by auto
      with go Cons c smp show ?thesis by simp
    qed
  qed
qed

lemma rollout_loop_stop:
  assumes "is_terminal (mdp self) s \<or> max_depth (cfg self) \<le> depth \<or> actions (mdp self) s = []"
  shows "rollout_loop self s depth t disc g = Inr (t, g)"
  using assms by (subst rollout_loop.simps) auto



lemma length_backprop [simp]: "length (backprop fp v path st) = length st"
  unfolding backprop_def by (induction path arbitrary: st) (simp_all add: backprop_node_def)

lemma backprop_Cons: "backprop fp v (n # path) st = backprop fp v path (backprop_node fp v st n)"
  by (simp add: backprop_def)

lemma backprop_node_fields:
  assumes "i < length st"
  shows "children (backprop_node fp v st n ! i) = children (st ! i)"
    and "state (backprop_node fp v st n ! i) = state (st ! i)"
    and "visits (backprop_node fp v st n ! i) = visits (st ! i) + (if n = i then 1 else 0)"
  using assms by (cases "n = i"; simp add: backprop_node_def)+

lemma backprop_fields:
  assumes "i < length st"
  shows "children (backprop fp v path st ! i) = children (st ! i)
       \<and> state (backprop fp v path st ! i) = state (st ! i)
       \<and> visits (backprop fp v path st ! i) = visits (st ! i) + count_list path i"
  using assms
proof (induction path arbitrary: st)
  case Nil
  then show ?case by (simp add: backprop_def)
next
  case (Cons n path)
  have len: "i < length (backprop_node fp v st n)"
    using Cons.prems by (simp add: backprop_node_def)
  show ?case
    using Cons.IH [OF len] backprop_node_fields [OF Cons.prems, of fp v n]
    by (simp add: backprop_Cons)
qed


lemma expand_cases:
  assumes "node < length st"
  shows "\<exists>st1 node1 path1 depth1 g1.
           expand self st node path depth g = Inr (st1, node1, path1, depth1, g1)
         \<and> ((st1 = st \<and> node1 = node \<and> path1 = path \<and> depth1 = depth \<and> g1 = g)
            \<or> (\<exists>action next_s. action \<in> set (actions (mdp self) (state (st ! node)))
                 \<and> st1 = grow st node action next_s \<and> node1 = length st
                 \<and> path1 = path @ [length st] \<and> depth1 = depth + 1))"
proof -
  let ?acts = "actions (mdp self) (state (st ! node))"
  let ?un = "filter (\<lambda>a. a \<notin> set (map fst (children (st ! node)))) ?acts"
  show ?thesis
  proof (cases "\<not> is_terminal (mdp self) (state (st ! node)) \<and> depth < max_depth (cfg self)
                \<and> ?acts \<noteq> [] \<and> ?un \<noteq> []")
    case False
    then have "expand self st node path depth g = Inr (st, node, path, depth, g)"
      by (auto simp: expand_def Let_def)
    then show ?thesis by simp
  next
    case True
    then obtain action g1 where c: "choice g ?un = Inr (action, g1)" and m: "action \<in> set ?un"
      using choice_member [of ?un g] by auto
    obtain next_s reward g2 where
      smp: "sample_next_state_and_reward (mdp self) (state (st ! node)) action g1
              = ((next_s, reward), g2)"
      by (metis prod.exhaust)
    have "expand self st node path depth g
            = Inr (grow st node action next_s, length st, path @ [length st], depth + 1, g2)"
      using True c smp assms by (simp add: expand_def Let_def grow_def nth_append)
    moreover from m have "action \<in> set ?acts" by simp
    ultimately show ?thesis by blast
  qed
qed

lemma length_grow [simp]: "length (grow st node action next_s) = Suc (length st)"
  by (simp add: grow_def)

lemma grow_nth:
  assumes "node < length st"
  shows "grow st node action next_s ! node
           = (st ! node)\<lparr>children := AList.update action (length st) (children (st ! node))\<rparr>"
    and "i < length st \<Longrightarrow> i \<noteq> node \<Longrightarrow> grow st node action next_s ! i = st ! i"
    and "grow st node action next_s ! length st = Node_init next_s (Some (node, action))"
  using assms by (simp_all add: grow_def nth_append)

lemma set_update_subset: "set (AList.update k v al) \<subseteq> insert (k, v) (set al)"
  by (induction al) auto

lemma grow_fields:
  assumes "node < length st" and "i < Suc (length st)"
  shows "set (children (grow st node action next_s ! i))
           \<subseteq> (if i = node then insert (action, length st) (set (children (st ! i)))
               else if i = length st then {} else set (children (st ! i)))"
    and "i < length st \<Longrightarrow> state (grow st node action next_s ! i) = state (st ! i)"
    and "i < length st \<Longrightarrow> visits (grow st node action next_s ! i) = visits (st ! i)"
    and "i \<noteq> node \<Longrightarrow> i < length st \<Longrightarrow>
           children (grow st node action next_s ! i) = children (st ! i)"
    and "i = length st \<Longrightarrow> children (grow st node action next_s ! i) = []"
proof -
  show "set (children (grow st node action next_s ! i))
           \<subseteq> (if i = node then insert (action, length st) (set (children (st ! i)))
               else if i = length st then {} else set (children (st ! i)))"
  proof (cases "i = node")
    case True
    then show ?thesis using grow_nth(1) [OF assms(1)] set_update_subset by fastforce
  next
    case ne: False
    show ?thesis
    proof (cases "i = length st")
      case True
      then show ?thesis using ne grow_nth(3) [OF assms(1)] by (simp add: Node_init_def)
    next
      case False
      with assms(2) have "i < length st" by simp
      then show ?thesis using ne False grow_nth(2) [OF assms(1)] by simp
    qed
  qed
  show "i < length st \<Longrightarrow> state (grow st node action next_s ! i) = state (st ! i)"
    using grow_nth(1,2) [OF assms(1)] by (cases "i = node") simp_all
  show "i < length st \<Longrightarrow> visits (grow st node action next_s ! i) = visits (st ! i)"
    using grow_nth(1,2) [OF assms(1)] by (cases "i = node") simp_all
  show "i \<noteq> node \<Longrightarrow> i < length st \<Longrightarrow>
           children (grow st node action next_s ! i) = children (st ! i)"
    using grow_nth(2) [OF assms(1)] by simp
  show "i = length st \<Longrightarrow> children (grow st node action next_s ! i) = []"
    using grow_nth(3) [OF assms(1)] by (simp add: Node_init_def)
qed

lemma refs_ok_grow:
  assumes "refs_ok st" and "node < length st"
  shows "refs_ok (grow st node action next_s)"
  unfolding refs_ok_def
proof (intro allI impI ballI)
  fix i x
  assume i: "i < length (grow st node action next_s)"
    and x: "x \<in> set (children (grow st node action next_s ! i))"
  from i have i': "i < Suc (length st)" by simp
  obtain a c where xc: "x = (a, c)" by (cases x)
  from grow_fields(1) [OF assms(2) i', of action next_s] x
  have mem: "x \<in> (if i = node then insert (action, length st) (set (children (st ! i)))
               else if i = length st then {} else set (children (st ! i)))" by blast
  have "i < c \<and> c < Suc (length st)"
  proof (cases "x = (action, length st) \<and> i = node")
    case True
    with assms(2) xc show ?thesis by simp
  next
    case False
    with mem assms(2) have old: "x \<in> set (children (st ! i))" and "i \<noteq> length st"
      by (auto split: if_splits)
    with i' have "i < length st" by simp
    with assms(1) old xc show ?thesis by (fastforce simp: refs_ok_def)
  qed
  then show "case x of (a, c) \<Rightarrow> i < c \<and> c < length (grow st node action next_s)"
    by (simp add: xc)
qed

lemma keys_ok_grow:
  assumes "keys_ok self st" and "node < length st"
    and "action \<in> set (actions (mdp self) (state (st ! node)))"
  shows "keys_ok self (grow st node action next_s)"
  unfolding keys_ok_def
proof (intro allI impI)
  fix i
  assume "i < length (grow st node action next_s)"
  then have i': "i < Suc (length st)" by simp
  show "set (map fst (children (grow st node action next_s ! i)))
          \<subseteq> set (actions (mdp self) (state (grow st node action next_s ! i)))"
  proof (cases "i = length st")
    case True
    then show ?thesis using grow_fields(5) [OF assms(2) i'] by simp
  next
    case False
    with i' have il: "i < length st" by simp
    have sub: "set (map fst (children (st ! i))) \<subseteq> set (actions (mdp self) (state (st ! i)))"
      using assms(1) il by (simp add: keys_ok_def)
    have st_eq: "state (grow st node action next_s ! i) = state (st ! i)"
      using grow_fields(2) [OF assms(2) i' il] .
    have "set (children (grow st node action next_s ! i))
            \<subseteq> insert (action, length st) (set (children (st ! i)))"
      using grow_fields(1) [OF assms(2) i', of action next_s] False
      by (auto split: if_splits)
    then have "fst ` set (children (grow st node action next_s ! i))
            \<subseteq> insert action (fst ` set (children (st ! i)))"
      by auto
    moreover have "i \<noteq> node \<Longrightarrow> children (grow st node action next_s ! i) = children (st ! i)"
      using grow_fields(4) [OF assms(2) i' _ il] by simp
    ultimately show ?thesis
      using sub assms(3) st_eq by (cases "i = node") auto
  qed
qed

lemma refs_ok_backprop: "refs_ok st \<Longrightarrow> refs_ok (backprop fp v path st)"
  by (simp add: refs_ok_def backprop_fields)

lemma keys_ok_backprop: "keys_ok self st \<Longrightarrow> keys_ok self (backprop fp v path st)"
  by (simp add: keys_ok_def backprop_fields)

lemma visited_ok_backprop:
  assumes "\<forall>i < length st. children (st ! i) \<noteq> [] \<longrightarrow> 0 < visits (st ! i) \<or> i \<in> set path"
  shows "visited_ok (backprop fp v path st)"
  unfolding visited_ok_def
proof (intro allI impI)
  fix i
  assume "i < length (backprop fp v path st)" and c: "children (backprop fp v path st ! i) \<noteq> []"
  then have i: "i < length st" by simp
  from c have "children (st ! i) \<noteq> []" by (simp add: backprop_fields [OF i])
  with assms i have "0 < visits (st ! i) \<or> i \<in> set path" by blast
  then have "0 < visits (st ! i) \<or> 0 < count_list path i"
    using count_list_0_iff [of path i] by auto
  then show "0 < visits (backprop fp v path st ! i)" by (auto simp: backprop_fields [OF i])
qed

lemma count_root:
  assumes "\<forall>x \<in> set extra. 0 < (x::nat)"
  shows "count_list (0 # extra) 0 = 1"
proof -
  from assms have "0 \<notin> set extra" by auto
  then show ?thesis by simp
qed

lemma select_loop_returns:
  assumes "refs_ok st" and "visited_ok st" and "node < length st"
  shows "select_loop fp self st node path depth = Inl KeyError
       \<or> (\<exists>node' extra depth'.
           select_loop fp self st node path depth = Inr (node', path @ extra, depth')
         \<and> node' < length st \<and> node' \<in> set (node # extra)
         \<and> (\<forall>x \<in> set extra. 0 < x \<and> x < length st))"
  using assms
proof (induction fp self st node path depth rule: select_loop.induct)
  case (1 fp self st node path depth)
  show ?case
  proof (cases "children (st ! node) \<noteq> [] \<and> \<not> is_terminal (mdp self) (state (st ! node))
         \<and> depth < max_depth (cfg self)")
    case False
    then have "select_loop fp self st node path depth = Inr (node, path @ [], depth)" by auto
    with "1.prems" have "\<exists>node' extra depth'.
           select_loop fp self st node path depth = Inr (node', path @ extra, depth')
         \<and> node' < length st \<and> node' \<in> set (node # extra)
         \<and> (\<forall>x \<in> set extra. 0 < x \<and> x < length st)"
      by (intro exI [of _ node] exI [of _ "[]"] exI [of _ depth]) simp
    then show ?thesis ..
  next
    case go: True
    with "1.prems" have v: "0 < visits (st ! node)" by (simp add: visited_ok_def)
    show ?thesis
    proof (cases "select_uct fp self st node = Inr None")
      case True
      with go have "select_loop fp self st node path depth = Inl KeyError" by simp
      then show ?thesis ..
    next
      case False
      with select_uct_returns [OF v, of fp self] obtain a ch0 where
        sel: "select_uct fp self st node = Inr (Some a)"
        and mem: "(a, ch0) \<in> set (children (st ! node))"
        by auto
      from mem obtain ch where mo: "map_of (children (st ! node)) a = Some ch"
        by (metis weak_map_of_SomeI)
      then have mem': "(a, ch) \<in> set (children (st ! node))" by (rule map_of_SomeD)
      with "1.prems" have ch: "node < ch" "ch < length st" by (auto simp: refs_ok_def)
      have step: "select_loop fp self st node path depth
                    = select_loop fp self st ch (path @ [ch]) (depth + 1)"
        using go sel mo by simp
      from "1.IH" [OF go sel refl mo "1.prems"(1,2) ch(2)] show ?thesis
      proof
        assume "select_loop fp self st ch (path @ [ch]) (depth + 1) = Inl KeyError"
        with step show ?thesis by (simp del: select_loop.simps)
      next
        assume "\<exists>node' extra depth'.
           select_loop fp self st ch (path @ [ch]) (depth + 1) = Inr (node', (path @ [ch]) @ extra, depth')
         \<and> node' < length st \<and> node' \<in> set (ch # extra)
         \<and> (\<forall>x \<in> set extra. 0 < x \<and> x < length st)"
        then obtain node' extra depth' where
          r: "select_loop fp self st ch (path @ [ch]) (depth + 1)
                = Inr (node', (path @ [ch]) @ extra, depth')"
          and p: "node' < length st" "node' \<in> set (ch # extra)"
            "\<forall>x \<in> set extra. 0 < x \<and> x < length st"
          by blast
        have "select_loop fp self st node path depth = Inr (node', path @ (ch # extra), depth')"
          using step r by (simp del: select_loop.simps)
        with p ch have "\<exists>node' extra depth'.
           select_loop fp self st node path depth = Inr (node', path @ extra, depth')
         \<and> node' < length st \<and> node' \<in> set (node # extra)
         \<and> (\<forall>x \<in> set extra. 0 < x \<and> x < length st)"
          by (intro exI [of _ node'] exI [of _ "ch # extra"] exI [of _ depth']) auto
        then show ?thesis ..
      qed
    qed
  qed
qed

lemma simulate_step:
  assumes "refs_ok st" and "visited_ok st" and "keys_ok self st" and "st \<noteq> []"
  shows "simulate fp self st g = Inl KeyError
       \<or> (\<exists>st' g'. simulate fp self st g = Inr (st', g')
           \<and> refs_ok st' \<and> visited_ok st' \<and> keys_ok self st'
           \<and> length st \<le> length st' \<and> length st' \<le> Suc (length st)
           \<and> state (st' ! 0) = state (st ! 0) \<and> visits (st' ! 0) = Suc (visits (st ! 0)))"
proof (cases "select_loop fp self st 0 [0] 0 = Inl KeyError")
  case True
  then have "simulate fp self st g = Inl KeyError" by (simp add: simulate_def)
  then show ?thesis ..
next
  case False
  from assms(4) have l0: "0 < length st" by simp
  from select_loop_returns [OF assms(1,2) l0, of fp self "[0]" 0] False
  obtain node extra depth' where
    sel: "select_loop fp self st 0 [0] 0 = Inr (node, [0] @ extra, depth')"
    and node: "node < length st" and inpath: "node \<in> set (0 # extra)"
    and extra: "\<forall>x \<in> set extra. 0 < x \<and> x < length st"
    by blast
  from extra have cnt: "count_list (0 # extra) 0 = 1" by (intro count_root) simp
  from expand_cases [OF node, of self "[0] @ extra" depth' g]
  obtain st1 node1 path1 depth1 g1 where
    ex: "expand self st node ([0] @ extra) depth' g = Inr (st1, node1, path1, depth1, g1)"
    and cases: "(st1 = st \<and> node1 = node \<and> path1 = [0] @ extra \<and> depth1 = depth' \<and> g1 = g)
            \<or> (\<exists>action next_s. action \<in> set (actions (mdp self) (state (st ! node)))
                 \<and> st1 = grow st node action next_s \<and> node1 = length st
                 \<and> path1 = ([0] @ extra) @ [length st] \<and> depth1 = depth' + 1)"
    by blast
  obtain w g2 where ro: "rollout self (state (st1 ! node1)) depth1 g1 = Inr (w, g2)"
    using rollout_loop_total [of self "state (st1 ! node1)" depth1 0 1 g1]
    by (auto simp: rollout_def)
  define v where "v = returned fp w"
  have sim: "simulate fp self st g = Inr (backprop fp v path1 st1, g2)"
    using sel ex ro by (simp add: simulate_def v_def del: select_loop.simps)
  from cases have "refs_ok (backprop fp v path1 st1) \<and> visited_ok (backprop fp v path1 st1)
      \<and> keys_ok self (backprop fp v path1 st1)
      \<and> length st \<le> length st1 \<and> length st1 \<le> Suc (length st)
      \<and> state (backprop fp v path1 st1 ! 0) = state (st ! 0)
      \<and> visits (backprop fp v path1 st1 ! 0) = Suc (visits (st ! 0))"
  proof
    assume same: "st1 = st \<and> node1 = node \<and> path1 = [0] @ extra \<and> depth1 = depth' \<and> g1 = g"
    have "visited_ok (backprop fp v path1 st1)"
      by (rule visited_ok_backprop) (use same assms(2) in \<open>auto simp: visited_ok_def\<close>)
    moreover have "visits (backprop fp v path1 st1 ! 0) = Suc (visits (st ! 0))"
      using same backprop_fields [OF l0, of fp v "0 # extra"] cnt by simp
    moreover have "state (backprop fp v path1 st1 ! 0) = state (st ! 0)"
      using same backprop_fields [OF l0, of fp v "0 # extra"] by simp
    ultimately show ?thesis
      using same assms(1,3) by (simp add: refs_ok_backprop keys_ok_backprop)
  next
    assume "\<exists>action next_s. action \<in> set (actions (mdp self) (state (st ! node)))
                 \<and> st1 = grow st node action next_s \<and> node1 = length st
                 \<and> path1 = ([0] @ extra) @ [length st] \<and> depth1 = depth' + 1"
    then obtain action next_s where
      act: "action \<in> set (actions (mdp self) (state (st ! node)))"
      and st1: "st1 = grow st node action next_s"
      and path1: "path1 = (0 # extra) @ [length st]"
      by auto
    have l1: "0 < length st1" by (simp add: st1)
    have r: "refs_ok st1" unfolding st1 by (rule refs_ok_grow [OF assms(1) node])
    have k: "keys_ok self st1" unfolding st1 by (rule keys_ok_grow [OF assms(3) node act])
    have pre: "\<forall>i < length st1. children (st1 ! i) \<noteq> [] \<longrightarrow> 0 < visits (st1 ! i) \<or> i \<in> set path1"
    proof (intro allI impI)
      fix i
      assume i: "i < length st1" and c: "children (st1 ! i) \<noteq> []"
      from i have i': "i < Suc (length st)" by (simp add: st1)
      show "0 < visits (st1 ! i) \<or> i \<in> set path1"
      proof (cases "i = node")
        case True
        with inpath show ?thesis by (auto simp: path1)
      next
        case False
        have "i \<noteq> length st"
          using c grow_fields(5) [OF node i', of action next_s] by (auto simp: st1)
        with i' have il: "i < length st" by simp
        have "children (st ! i) \<noteq> []"
          using c grow_fields(4) [OF node i' False il, of action next_s] by (simp add: st1)
        with assms(2) il have "0 < visits (st ! i)" by (simp add: visited_ok_def)
        then show ?thesis
          using grow_fields(3) [OF node i' il, of action next_s] by (simp add: st1)
      qed
    qed
    have v: "visited_ok (backprop fp v path1 st1)" by (rule visited_ok_backprop [OF pre])
    have "count_list path1 0 = 1" using cnt l0 by (simp add: path1)
    then have "visits (backprop fp v path1 st1 ! 0) = Suc (visits (st1 ! 0))"
      using backprop_fields [OF l1, of fp v path1] by simp
    moreover have "visits (st1 ! 0) = visits (st ! 0)"
      unfolding st1 by (rule grow_fields(3) [OF node _ l0]) (use l0 in simp)
    moreover have "state (backprop fp v path1 st1 ! 0) = state (st1 ! 0)"
      using backprop_fields [OF l1, of fp v path1] by simp
    moreover have "state (st1 ! 0) = state (st ! 0)"
      unfolding st1 by (rule grow_fields(2) [OF node _ l0]) (use l0 in simp)
    ultimately show ?thesis
      using r k v by (simp add: refs_ok_backprop keys_ok_backprop st1)
  qed
  with sim have "\<exists>st' g'. simulate fp self st g = Inr (st', g')
           \<and> refs_ok st' \<and> visited_ok st' \<and> keys_ok self st'
           \<and> length st \<le> length st' \<and> length st' \<le> Suc (length st)
           \<and> state (st' ! 0) = state (st ! 0) \<and> visits (st' ! 0) = Suc (visits (st ! 0))"
    by simp
  then show ?thesis ..
qed

section \<open>Properties of the loop of \<open>search\<close> and of the choice of the action\<close>

lemma tree_inv_init: "tree_inv self [Node_init s None]"
  by (simp add: tree_inv_def refs_ok_def visited_ok_def keys_ok_def Node_init_def)

lemma run_rollouts_inv:
  assumes "tree_inv self st"
  shows "run_rollouts fp self n st g = Inl KeyError
       \<or> (\<exists>st' g'. run_rollouts fp self n st g = Inr (st', g') \<and> tree_inv self st'
           \<and> state (st' ! 0) = state (st ! 0) \<and> visits (st' ! 0) = visits (st ! 0) + n)"
  using assms
proof (induction n arbitrary: st g)
  case 0
  then show ?case by simp
next
  case (Suc n)
  from Suc.prems have a: "refs_ok st" "visited_ok st" "keys_ok self st" "st \<noteq> []"
    by (simp_all add: tree_inv_def)
  from simulate_step [OF a, of fp g] show ?case
  proof
    assume "simulate fp self st g = Inl KeyError"
    then show ?thesis by simp
  next
    assume "\<exists>st' g'. simulate fp self st g = Inr (st', g')
           \<and> refs_ok st' \<and> visited_ok st' \<and> keys_ok self st'
           \<and> length st \<le> length st' \<and> length st' \<le> Suc (length st)
           \<and> state (st' ! 0) = state (st ! 0) \<and> visits (st' ! 0) = Suc (visits (st ! 0))"
    then obtain st1 g1 where
      sim: "simulate fp self st g = Inr (st1, g1)" and inv1: "tree_inv self st1"
      and root: "state (st1 ! 0) = state (st ! 0)" "visits (st1 ! 0) = Suc (visits (st ! 0))"
      using a(4) by (fastforce simp: tree_inv_def)
    from Suc.IH [OF inv1, of g1] show ?thesis
    proof
      assume "run_rollouts fp self n st1 g1 = Inl KeyError"
      with sim show ?thesis by simp
    next
      assume "\<exists>st' g'. run_rollouts fp self n st1 g1 = Inr (st', g') \<and> tree_inv self st'
           \<and> state (st' ! 0) = state (st1 ! 0) \<and> visits (st' ! 0) = visits (st1 ! 0) + n"
      with sim root show ?thesis by auto
    qed
  qed
qed

lemma search_tree_inv:
  "search_tree fp self s = Inl KeyError
   \<or> (\<exists>st g'. search_tree fp self s = Inr (st, g') \<and> tree_inv self st
        \<and> state (st ! 0) = s \<and> visits (st ! 0) = nat (rollouts (cfg self)))"
  using run_rollouts_inv [OF tree_inv_init, where n = "nat (rollouts (cfg self))" and g = "rng self"
      and self = self and s1 = s and fp = fp]
  by (simp add: search_tree_def Node_init_def)

lemma most_visited_result:
  "(most_visited st items ba bv = ba \<or> most_visited st items ba bv \<in> Some ` fst ` set items)
   \<and> (bv < 0 \<and> items \<noteq> [] \<longrightarrow> most_visited st items ba bv \<in> Some ` fst ` set items)"
proof (induction items arbitrary: ba bv)
  case Nil
  show ?case by simp
next
  case (Cons x items)
  obtain a ch where x: "x = (a, ch)" by (cases x)
  show ?case
    using Cons.IH [of "Some a" "int (visits (st ! ch))"] Cons.IH [of ba bv]
    by (auto simp: x)
qed

lemma search_cases:
  assumes "search_tree fp self s = Inr (st, g)"
  shows "search fp self s =
           (case most_visited st (children (st ! 0)) None (- 1) of
              Some a \<Rightarrow> Inr (a, g)
            | None \<Rightarrow> (case actions (mdp self) s of [] \<Rightarrow> Inl RuntimeError | a # _ \<Rightarrow> Inr (a, g)))"
  using assms by (simp add: search_def)

lemma search_member:
  assumes "actions (mdp self) s \<noteq> []"
  shows "search fp self s = Inl KeyError
       \<or> (\<exists>a g. search fp self s = Inr (a, g) \<and> a \<in> set (actions (mdp self) s))"
  using search_tree_inv [of fp self s]
proof
  assume "search_tree fp self s = Inl KeyError"
  then have "search fp self s = Inl KeyError" by (simp add: search_def)
  then show ?thesis ..
next
  assume "\<exists>st g'. search_tree fp self s = Inr (st, g') \<and> tree_inv self st
        \<and> state (st ! 0) = s \<and> visits (st ! 0) = nat (rollouts (cfg self))"
  then obtain st g where
    t: "search_tree fp self s = Inr (st, g)" and inv: "tree_inv self st" and root: "state (st ! 0) = s"
    by blast
  from inv root have keys: "fst ` set (children (st ! 0)) \<subseteq> set (actions (mdp self) s)"
    by (auto simp: tree_inv_def keys_ok_def)
  have "\<exists>a g. search fp self s = Inr (a, g) \<and> a \<in> set (actions (mdp self) s)"
  proof (cases "most_visited st (children (st ! 0)) None (- 1)")
    case None
    with assms t show ?thesis by (cases "actions (mdp self) s") (auto simp: search_cases)
  next
    case (Some a)
    with most_visited_result [of st "children (st ! 0)" None "- 1"]
    have "a \<in> fst ` set (children (st ! 0))" by auto
    with keys Some t show ?thesis by (auto simp: search_cases)
  qed
  then show ?thesis ..
qed

lemma simulate_childless:
  assumes "childless st s"
    and "is_terminal (mdp self) s \<or> max_depth (cfg self) \<le> 0 \<or> actions (mdp self) s = []"
  shows "\<exists>st'. simulate fp self st g = Inr (st', g) \<and> childless st' s"
proof -
  from assms(1) have c: "children (st ! 0) = []" and s: "state (st ! 0) = s" and l: "length st = 1"
    by (simp_all add: childless_def)
  have sel: "select_loop fp self st 0 [0] 0 = Inr (0, [0], 0)"
    using c by simp
  have ex: "expand self st 0 [0] 0 g = Inr (st, 0, [0], 0, g)"
    using assms(2) s by (auto simp: expand_def Let_def)
  have ro: "rollout self (state (st ! 0)) 0 g = Inr (0, g)"
    unfolding rollout_def s by (rule rollout_loop_stop) (use assms(2) in auto)
  have sim: "simulate fp self st g = Inr (backprop fp (returned fp 0) [0] st, g)"
    using sel ex ro by (simp add: simulate_def del: select_loop.simps)
  have "childless (backprop fp (returned fp 0) [0] st) s"
    using c s l backprop_fields [of 0 st fp "returned fp 0" "[0]"]
    by (simp add: childless_def)
  with sim show ?thesis by blast
qed

lemma run_rollouts_childless:
  assumes "childless st s"
    and "is_terminal (mdp self) s \<or> max_depth (cfg self) \<le> 0 \<or> actions (mdp self) s = []"
  shows "\<exists>st'. run_rollouts fp self n st g = Inr (st', g) \<and> childless st' s"
  using assms(1)
proof (induction n arbitrary: st)
  case 0
  then show ?case by simp
next
  case (Suc n)
  from simulate_childless [OF Suc.prems assms(2), of fp g] obtain st1 where
    sim: "simulate fp self st g = Inr (st1, g)" and c1: "childless st1 s"
    by blast
  from Suc.IH [OF c1] sim show ?case by simp
qed

lemma search_tree_childless:
  assumes "rollouts (cfg self) \<le> 0 \<or> max_depth (cfg self) \<le> 0
         \<or> is_terminal (mdp self) s \<or> actions (mdp self) s = []"
  shows "\<exists>st. search_tree fp self s = Inr (st, rng self) \<and> childless st s"
proof (cases "rollouts (cfg self) \<le> 0")
  case True
  then have "search_tree fp self s = Inr ([Node_init s None], rng self)"
    by (simp add: search_tree_def)
  moreover have "childless [Node_init s None] s" by (simp add: childless_def Node_init_def)
  ultimately show ?thesis by blast
next
  case False
  with assms have h: "is_terminal (mdp self) s \<or> max_depth (cfg self) \<le> 0 \<or> actions (mdp self) s = []"
    by auto
  have "childless [Node_init s None] s" by (simp add: childless_def Node_init_def)
  from run_rollouts_childless [OF this h, of fp "nat (rollouts (cfg self))" "rng self"]
  show ?thesis by (simp add: search_tree_def)
qed

lemma search_childless:
  assumes "rollouts (cfg self) \<le> 0 \<or> max_depth (cfg self) \<le> 0
         \<or> is_terminal (mdp self) s \<or> actions (mdp self) s = []"
  shows "search fp self s =
           (case actions (mdp self) s of [] \<Rightarrow> Inl RuntimeError | a # _ \<Rightarrow> Inr (a, rng self))"
proof -
  from search_tree_childless [OF assms, of fp] obtain st where
    t: "search_tree fp self s = Inr (st, rng self)" and c: "childless st s"
    by blast
  from c have "children (st ! 0) = []" by (simp add: childless_def)
  with t show ?thesis by (simp add: search_cases)
qed

lemma search_no_actions:
  assumes "actions (mdp self) s = []"
  shows "search fp self s = Inl RuntimeError"
  using search_childless [of self s fp] assms by simp

section \<open>Evaluation of the concrete planners\<close>

lemmas example_defs = planner_def MCTS_init_def example_cfg_def bad_cfg_def negative_cfg_def
  inf_cfg_def zero_depth_cfg_def chain_mdp_def terminal_mdp_def empty_mdp_def example_rng_def

lemmas phase_defs = simulate_def expand_def Let_def choice_def rollout_def backprop_def
  backprop_node_def Node_init_def select_uct_def q_def math_log_def fround_def exact_def

section \<open>The claims about selection and rollout\<close>

text \<open>
  Claim C1 describes the selection rule, and the code follows it as long as some
  child has a score greater than minus infinity (\<open>select_uct_first_best\<close>: the first
  unvisited child, otherwise the first child of greatest score). It fails where every
  score is \<open>nan\<close> or minus infinity: for a parent visited once with one child visited
  once, \<open>c_uct = inf\<close> gives the score \<open>inf * 0 = nan\<close>, and a value sum of minus infinity
  gives the score minus infinity; neither is greater than the initial \<open>best_score\<close>, and
  \<open>_select_uct\<close> returns \<open>None\<close> instead of the action of the child, whatever the
  rounding.
\<close>

theorem select_uct_nan_score:
  "0 < visits (one_child_store ! 0)
   \<and> children (one_child_store ! 0) = [(10, 1)]
   \<and> visits (one_child_store ! 1) = 1
   \<and> uct_score fp (planner chain_mdp inf_cfg) (one_child_store ! 0) (one_child_store ! 1) = NaN
   \<and> select_uct fp (planner chain_mdp inf_cfg) one_child_store 0 = Inr None
   \<and> 0 < visits (neg_inf_store ! 0)
   \<and> children (neg_inf_store ! 0) = [(10, 1)]
   \<and> visits (neg_inf_store ! 1) = 1
   \<and> uct_score fp (planner chain_mdp example_cfg) (neg_inf_store ! 0) (neg_inf_store ! 1)
       = NegInf
   \<and> select_uct fp (planner chain_mdp example_cfg) neg_inf_store 0 = Inr None"
  by (simp add: example_defs select_uct_def q_def math_log_def one_child_store_def
      neg_inf_store_def uct_score_def fround_zero fadd_NaN fdiv_count)



section \<open>The claims about \<open>search\<close>\<close>

text \<open>
  Claim C2, as stated, fails for a negative budget: with \<open>rollouts = -1\<close> the loop runs
  no iteration, \<open>search\<close> returns the first action, and the visit count of the root is
  \<open>0\<close>, not \<open>-1\<close>.
\<close>

theorem negative_rollouts_no_visit:
  "rollouts (cfg (planner chain_mdp negative_cfg)) = - 1
   \<and> \<not> is_terminal (mdp (planner chain_mdp negative_cfg)) 0
   \<and> search exact (planner chain_mdp negative_cfg) 0 = Inr (10, example_rng)
   \<and> search_tree exact (planner chain_mdp negative_cfg) 0 = Inr ([Node_init 0 None], example_rng)
   \<and> int (visits ([Node_init (0::nat) (None :: (nat \<times> nat) option)] ! 0)) = 0"
  by (simp add: search_def search_tree_def example_defs Node_init_def)

text \<open>
  Claim C2, amended. For every root state and every configuration with
  \<open>rollouts = R\<close>, when the loop of \<open>search\<close> has completed, the visit count of the root
  is \<open>R\<close> if \<open>R\<close> is not negative and \<open>0\<close> otherwise: every iteration backpropagates
  through the root once. The loop completes unless selection raises \<open>KeyError\<close>.
\<close>

theorem root_visits_equal_rollouts:
  "(search_tree fp self root_state = Inr (st, g)
      \<longrightarrow> int (visits (st ! 0)) = max 0 (rollouts (cfg self)))
   \<and> (search_tree fp self root_state = Inl e \<longrightarrow> e = KeyError)"
  using search_tree_inv [of fp self root_state] by auto

theorem root_visits_equal_rollouts_witness:
  "(\<exists>st g. search_tree exact (planner chain_mdp example_cfg) 0 = Inr (st, g)
       \<and> int (visits (st ! 0)) = 2)
   \<and> search_tree exact (planner chain_mdp inf_cfg) 0 = Inl KeyError"
proof -
  define ST :: "(nat, nat) Node list" where
    "ST = [\<lparr>state = 0, parent = None, children = [(10, Suc 0)],
               visits = Suc (Suc 0), value_sum = Finite 1\<rparr>,
            \<lparr>state = Suc 0, parent = Some (0, 10),
               children = [(10, Suc (Suc 0))], visits = Suc (Suc 0),
               value_sum = Finite 1\<rparr>,
            \<lparr>state = Suc (Suc 0), parent = Some (Suc 0, 10), children = [],
               visits = Suc 0, value_sum = Finite 0\<rparr>]"
  define G :: "nat Random" where
    "G = \<lparr>randbelow = \<lambda>s n. (s, Suc s), rstate = Suc (Suc (Suc 0))\<rparr>"
  have t: "search_tree exact (planner chain_mdp example_cfg) 0 = Inr (ST, G)"
    by (simp add: search_tree_def numeral_eq_Suc example_defs phase_defs ST_def G_def)
  have k: "search_tree exact (planner chain_mdp inf_cfg) 0 = Inl KeyError"
    by (simp add: search_tree_def numeral_eq_Suc example_defs phase_defs)
  from root_visits_equal_rollouts [of exact "planner chain_mdp example_cfg" 0 ST G] t
  have "int (visits (ST ! 0)) = 2" by (simp add: example_defs)
  moreover from root_visits_equal_rollouts [of exact "planner chain_mdp inf_cfg" 0 _ _ KeyError] k
  have "KeyError = KeyError" by simp
  ultimately show ?thesis using t k by blast
qed

text \<open>
  Claim C3 holds of the code as long as selection finds a score greater than minus
  infinity (\<open>search_member\<close>: \<open>search\<close> returns one of the actions enumerated at the
  root state or raises \<open>KeyError\<close>). It fails on a non-terminal root state with two
  actions when \<open>c_uct = inf\<close>: in the second iteration the score of the child of the
  root is \<open>nan\<close>, \<open>_select_uct\<close> returns \<open>None\<close>, and \<open>node.children[None]\<close> raises
  \<open>KeyError\<close>, whatever the rounding.
\<close>

theorem search_nan_score_key_error:
  "\<not> is_terminal (mdp (planner chain_mdp inf_cfg)) 0
   \<and> actions (mdp (planner chain_mdp inf_cfg)) 0 = [10, 20]
   \<and> rollouts (cfg (planner chain_mdp inf_cfg)) = 2
   \<and> search fp (planner chain_mdp inf_cfg) 0 = Inl KeyError"
  by (simp add: search_def search_tree_def numeral_eq_Suc example_defs simulate_def expand_def
      Let_def choice_def rollout_def backprop_def backprop_node_def Node_init_def select_uct_def
      q_def math_log_def fround_zero fadd_NaN fdiv_count)

text \<open>
  Claim C6, as stated, fails: on a terminal root state at which actions are enumerated,
  \<open>search\<close> raises nothing and returns the first enumerated action. The test before
  \<open>raise RuntimeError\<close> is \<open>if not actions\<close>, not the terminal test.
\<close>

theorem terminal_root_returns_action:
  "is_terminal (mdp (planner terminal_mdp example_cfg)) 0
   \<and> search exact (planner terminal_mdp example_cfg) 0 = Inr (10, example_rng)"
  by (simp add: search_def search_tree_def numeral_eq_Suc example_defs phase_defs)

text \<open>
  Claim C6, amended. On a root state at which no action is enumerated, terminal or not,
  \<open>search\<close> aborts with \<open>RuntimeError\<close> instead of returning an action, whatever the
  configuration and the random source.
\<close>

theorem search_without_actions_fails:
  assumes "actions (mdp self) root_state = []"
  shows "search fp self root_state = Inl RuntimeError"
  using assms by (rule search_no_actions)

theorem search_without_actions_fails_witness:
  "search exact (planner empty_mdp example_cfg) 0 = Inl RuntimeError"
  using search_without_actions_fails [of "planner empty_mdp example_cfg" 0 exact]
  by (simp add: example_defs)

text \<open>
  Claim C7, as stated, fails: a configuration with negative \<open>gamma\<close> and \<open>c_uct\<close>
  and with \<open>rollouts = 0\<close> and \<open>max_depth = 0\<close> is stored by the constructor as it is,
  and \<open>search\<close> with it returns an action. Neither \<open>MCTSConfig\<close> nor
  \<open>MCTS.__init__\<close> checks a value.
\<close>

theorem bad_configuration_accepted:
  "cfg (planner chain_mdp bad_cfg)
     = \<lparr>gamma = - 1, c_uct = Finite (- 1), rollouts = 0, max_depth = 0\<rparr>
   \<and> search exact (planner chain_mdp bad_cfg) 0 = Inr (10, example_rng)"
  by (simp add: search_def search_tree_def example_defs phase_defs)

text \<open>
  Claim C7, amended. No configuration is rejected at construction: the constructor
  stores any configuration unchanged. A budget or a depth that is not positive is not
  found during the search either: \<open>search\<close> then returns the first action enumerated at
  the root state, or aborts with \<open>RuntimeError\<close> when none is enumerated, and leaves
  the random source as it was.
\<close>

theorem configuration_not_validated:
  "cfg (MCTS_init Random_seed m c g h) = c
   \<and> (rollouts c \<le> 0 \<or> max_depth c \<le> 0 \<longrightarrow>
        search fp (MCTS_init Random_seed m c g h) s
          = (case actions m s of
               [] \<Rightarrow> Inl RuntimeError
             | a # _ \<Rightarrow> Inr (a, rng (MCTS_init Random_seed m c g h))))"
proof (intro conjI impI)
  show "cfg (MCTS_init Random_seed m c g h) = c" by (simp add: MCTS_init_def)
next
  assume "rollouts c \<le> 0 \<or> max_depth c \<le> 0"
  then have "rollouts (cfg (MCTS_init Random_seed m c g h)) \<le> 0
      \<or> max_depth (cfg (MCTS_init Random_seed m c g h)) \<le> 0
      \<or> is_terminal (mdp (MCTS_init Random_seed m c g h)) s
      \<or> actions (mdp (MCTS_init Random_seed m c g h)) s = []"
    by (auto simp: MCTS_init_def)
  from search_childless [OF this, of fp]
  show "search fp (MCTS_init Random_seed m c g h) s
          = (case actions m s of
               [] \<Rightarrow> Inl RuntimeError
             | a # _ \<Rightarrow> Inr (a, rng (MCTS_init Random_seed m c g h)))"
    by (simp add: MCTS_init_def)
qed

theorem configuration_not_validated_witness:
  "cfg (planner chain_mdp zero_depth_cfg) = zero_depth_cfg
   \<and> max_depth zero_depth_cfg \<le> 0
   \<and> search exact (planner chain_mdp zero_depth_cfg) 0 = Inr (10, example_rng)"
  using configuration_not_validated
    [of "\<lambda>seed. example_rng" chain_mdp zero_depth_cfg None "None :: unit option" exact 0]
  by (simp add: planner_def) (simp add: example_defs)

text \<open>
  Claim C8. If the root has no children after the loop, \<open>search\<close> returns the first
  action enumerated at the root state, and aborts with \<open>RuntimeError\<close> if none is
  enumerated. The root has no children when \<open>rollouts\<close> is not positive and when the
  root state has no action.
\<close>

theorem fallback_first_action:
  "(search_tree fp self s = Inr (st, g) \<and> children (st ! 0) = [] \<longrightarrow>
      search fp self s = (case actions (mdp self) s of [] \<Rightarrow> Inl RuntimeError | a # _ \<Rightarrow> Inr (a, g)))
   \<and> (rollouts (cfg self) \<le> 0 \<or> actions (mdp self) s = [] \<longrightarrow>
        (\<exists>st g. search_tree fp self s = Inr (st, g) \<and> children (st ! 0) = []))"
proof (intro conjI impI)
  assume "search_tree fp self s = Inr (st, g) \<and> children (st ! 0) = []"
  then show "search fp self s =
      (case actions (mdp self) s of [] \<Rightarrow> Inl RuntimeError | a # _ \<Rightarrow> Inr (a, g))"
    by (simp add: search_cases)
next
  assume "rollouts (cfg self) \<le> 0 \<or> actions (mdp self) s = []"
  then have "rollouts (cfg self) \<le> 0 \<or> max_depth (cfg self) \<le> 0
         \<or> is_terminal (mdp self) s \<or> actions (mdp self) s = []"
    by auto
  from search_tree_childless [OF this, of fp]
  show "\<exists>st g. search_tree fp self s = Inr (st, g) \<and> children (st ! 0) = []"
    by (auto simp: childless_def)
qed

theorem fallback_first_action_witness:
  "(\<exists>st g. search_tree exact (planner chain_mdp bad_cfg) 0 = Inr (st, g) \<and> children (st ! 0) = [])
   \<and> search exact (planner chain_mdp bad_cfg) 0 = Inr (10, example_rng)"
proof -
  have t: "search_tree exact (planner chain_mdp bad_cfg) 0 = Inr ([Node_init 0 None], example_rng)"
    by (simp add: search_tree_def example_defs)
  have c: "children ([Node_init (0::nat) None] ! 0) = ([] :: (nat \<times> nat) list)"
    by (simp add: Node_init_def)
  have r: "rollouts (cfg (planner chain_mdp bad_cfg)) \<le> 0" by (simp add: example_defs)
  from fallback_first_action
    [of exact "planner chain_mdp bad_cfg" 0 "[Node_init 0 None]" example_rng] t c r
  show ?thesis by (simp add: example_defs)
qed

text \<open>
  Claim C9. Iterations from the initial tree raise no domain error: the only error
  of the loop is \<open>KeyError\<close>. In the tree after any number of iterations, every node
  that has children has a visit count of at least \<open>1\<close>, so that \<open>math.log\<close> is not
  applied to \<open>0\<close> and \<open>_select_uct\<close> on it returns without an error.
\<close>

theorem select_uct_parent_visited:
  "(run_rollouts fp self n [Node_init s None] g = Inl e \<longrightarrow> e = KeyError)
   \<and> (run_rollouts fp self n [Node_init s None] g = Inr (st, g') \<longrightarrow>
        (\<forall>i < length st. children (st ! i) \<noteq> [] \<longrightarrow>
           1 \<le> visits (st ! i)
         \<and> math_log fp (visits (st ! i)) \<noteq> Inl ValueError
         \<and> (\<exists>r. select_uct fp self st i = Inr r)))"
proof (rule conjI)
  show "run_rollouts fp self n [Node_init s None] g = Inl e \<longrightarrow> e = KeyError"
    using run_rollouts_inv [OF tree_inv_init, where self = self and n = n and g = g and s1 = s
      and fp = fp]
    by auto
next
  show "run_rollouts fp self n [Node_init s None] g = Inr (st, g') \<longrightarrow>
        (\<forall>i < length st. children (st ! i) \<noteq> [] \<longrightarrow>
           1 \<le> visits (st ! i)
         \<and> math_log fp (visits (st ! i)) \<noteq> Inl ValueError
         \<and> (\<exists>r. select_uct fp self st i = Inr r))"
  proof (intro impI allI)
    fix i
    assume run: "run_rollouts fp self n [Node_init s None] g = Inr (st, g')"
      and i: "i < length st" and c: "children (st ! i) \<noteq> []"
    from run run_rollouts_inv [OF tree_inv_init, where self = self and n = n and g = g and s1 = s
        and fp = fp]
    have "tree_inv self st" by auto
    with i c have v: "0 < visits (st ! i)" by (simp add: tree_inv_def visited_ok_def)
    from select_uct_returns [OF v, of fp self] have "\<exists>r. select_uct fp self st i = Inr r"
      by auto
    with v math_log_count [OF v, of fp]
    show "1 \<le> visits (st ! i) \<and> math_log fp (visits (st ! i)) \<noteq> Inl ValueError
           \<and> (\<exists>r. select_uct fp self st i = Inr r)"
      by auto
  qed
qed

theorem select_uct_parent_visited_witness:
  "run_rollouts exact (planner chain_mdp inf_cfg) 2 [Node_init 0 None] example_rng = Inl KeyError
   \<and> (\<exists>st g'. run_rollouts exact (planner chain_mdp example_cfg) 1 [Node_init 0 None] example_rng
               = Inr (st, g')
        \<and> children (st ! 0) \<noteq> [] \<and> 1 \<le> visits (st ! 0)
        \<and> math_log exact (visits (st ! 0)) \<noteq> Inl ValueError
        \<and> (\<exists>r. select_uct exact (planner chain_mdp example_cfg) st 0 = Inr r))"
proof -
  define ST :: "(nat, nat) Node list" where
    "ST = [\<lparr>state = 0, parent = None, children = [(10, Suc 0)], visits = Suc 0,
             value_sum = Finite 1\<rparr>,
           \<lparr>state = Suc 0, parent = Some (0, 10), children = [], visits = Suc 0,
             value_sum = Finite 1\<rparr>]"
  define G :: "nat Random" where
    "G = \<lparr>randbelow = \<lambda>s n. (s, Suc s), rstate = Suc (Suc 0)\<rparr>"
  have k: "run_rollouts exact (planner chain_mdp inf_cfg) 2 [Node_init 0 None] example_rng
             = Inl KeyError"
    by (simp add: numeral_eq_Suc example_defs phase_defs)
  have run: "run_rollouts exact (planner chain_mdp example_cfg) 1 [Node_init 0 None] example_rng
               = Inr (ST, G)"
    by (simp add: example_defs phase_defs ST_def G_def)
  have c: "0 < length ST" "children (ST ! 0) \<noteq> []" by (simp_all add: ST_def)
  from select_uct_parent_visited
    [of exact "planner chain_mdp inf_cfg" 2 0 example_rng KeyError] k
  have "KeyError = KeyError" by simp
  moreover from select_uct_parent_visited
    [of exact "planner chain_mdp example_cfg" 1 0 example_rng _ ST G] run c
  have "1 \<le> visits (ST ! 0) \<and> math_log exact (visits (ST ! 0)) \<noteq> Inl ValueError
         \<and> (\<exists>r. select_uct exact (planner chain_mdp example_cfg) ST 0 = Inr r)"
    by blast
  ultimately show ?thesis using k run c by blast
qed

section \<open>The claim about \<open>ExplorationOnly\<close>\<close>

text \<open>
  Claim C10, as stated, fails beyond the 64-bit integers: for \<open>n_arms = 2^63 + 1\<close>
  the call \<open>numpy.random.randint(0, n_arms)\<close> raises \<open>ValueError\<close>.
\<close>

theorem select_arm_beyond_int64:
  "select_arm \<lparr>n_arms = 2 ^ 63 + 1\<rparr> example_rng = Inl ValueError"
  by (simp add: select_arm_def randint_def)

text \<open>
  Claim C10, amended. For \<open>n_arms\<close> from \<open>1\<close> to \<open>2^63\<close>, \<open>select_arm\<close> returns an
  integer \<open>i\<close> with \<open>0 \<le> i \<le> n_arms - 1\<close>, whatever the state of the generator.
\<close>

theorem select_arm_in_range:
  assumes "1 \<le> n_arms self" and "n_arms self \<le> 2 ^ 63"
  shows "\<exists>i g'. select_arm self g = Inr (i, g') \<and> 0 \<le> i \<and> i \<le> n_arms self - 1"
proof -
  obtain k s' where r: "randbelow g (rstate g) (nat (n_arms self)) = (k, s')"
    by (cases "randbelow g (rstate g) (nat (n_arms self))")
  from assms have pos: "0 < nat (n_arms self)" by simp
  then have "k mod nat (n_arms self) < nat (n_arms self)" by simp
  then have "int (k mod nat (n_arms self)) \<le> n_arms self - 1" using assms by linarith
  with assms r show ?thesis by (simp add: select_arm_def randint_def)
qed

theorem select_arm_in_range_witness:
  "\<exists>i g'. select_arm \<lparr>n_arms = 3\<rparr> example_rng = Inr (i, g') \<and> 0 \<le> i \<and> i \<le> 2"
  using select_arm_in_range [of "\<lparr>n_arms = 3\<rparr>" example_rng] by simp

end
